theory Spec2Isabelle
  imports Complex_Main
begin

section \<open>The tunnel animation of \<^verbatim>\<open>src/src/TunnelAnimation.js\<close>\<close>

text \<open>
  The class \<^verbatim>\<open>TunnelAnimation\<close> builds \<^verbatim>\<open>bufferSize\<close> groups of line drawables
  (rings and one batch of longitudinal lines), moves the groups along the z axis once per
  display frame and fades their materials by distance.

  Conventions of the embedding.
  \<^item> A JavaScript number that is a measure (a length, an offset, an opacity, a time) is a
    \<open>real\<close>: rounding of binary64 is not modelled. A number that the code only uses as a
    loop bound is a \<open>nat\<close>. JavaScript yields \<^verbatim>\<open>NaN\<close> or an infinity where a divisor is zero
    and where \<^verbatim>\<open>Math.pow\<close> gets a negative base with exponent 1.5; theorems whose values
    could come from such an operation carry the hypothesis that excludes it.
  \<^item> Objects that the code shares by reference (geometries and materials) live in a store,
    a list indexed by the reference; \<^verbatim>\<open>new\<close> appends to the store.
  \<^item> The callbacks queued by \<^verbatim>\<open>requestAnimationFrame\<close> and the listeners of \<^verbatim>\<open>window\<close>
    are fields of the state; every reading of the time source is an argument.
  \<^item> Camera, fog, pixel ratio and the sizes of the render surface are left out.
\<close>

subsection \<open>Configuration\<close>

record config =
  radius :: real
  segments :: nat
  rings :: nat
  length_cfg :: real
  speed :: real
  lineWidth :: real
  baseOpacity :: real
  color :: nat
  bufferSize :: nat
  segmentDetail :: nat

text \<open>The defaults of the constructor (lines 6 to 17).\<close>

definition default_config :: config where
  "default_config =
     \<lparr>radius = 10, segments = 72, rings = 60, length_cfg = 50, speed = 3 / 100,
      lineWidth = 3 / 2, baseOpacity = 1 / 2, color = 0, bufferSize = 2,
      segmentDetail = 256\<rparr>"

subsection \<open>The clock\<close>

text \<open>
  Modelled from the spec: the "resettable clock abstraction" is the class \<^verbatim>\<open>Clock\<close> of the
  three.js library, which is not part of the repository. The model follows the library's
  class: \<^verbatim>\<open>start\<close> resets the elapsed time and remembers the current time, \<^verbatim>\<open>getDelta\<close>
  returns the time since the previous reading (starting the clock first when \<^verbatim>\<open>autoStart\<close>
  is set and the clock is not running), \<^verbatim>\<open>stop\<close> takes a last reading and clears
  \<^verbatim>\<open>running\<close> and \<^verbatim>\<open>autoStart\<close>. Times are in milliseconds, deltas in seconds.
\<close>

record clock =
  autoStart :: bool
  startTime :: real
  oldTime :: real
  elapsedTime :: real
  running :: bool

definition new_clock :: clock where
  "new_clock = \<lparr>autoStart = True, startTime = 0, oldTime = 0, elapsedTime = 0, running = False\<rparr>"

definition clock_start :: "real \<Rightarrow> clock \<Rightarrow> clock" where
  "clock_start now c = c\<lparr>startTime := now, oldTime := now, elapsedTime := 0, running := True\<rparr>"

definition clock_getDelta :: "real \<Rightarrow> clock \<Rightarrow> real \<times> clock" where
  "clock_getDelta now c =
     (if autoStart c \<and> \<not> running c then (0, clock_start now c)
      else if running c then
        (let diff = (now - oldTime c) / 1000
         in (diff, c\<lparr>oldTime := now, elapsedTime := elapsedTime c + diff\<rparr>))
      else (0, c))"

definition clock_stop :: "real \<Rightarrow> clock \<Rightarrow> clock" where
  "clock_stop now c = (snd (clock_getDelta now c))\<lparr>running := False, autoStart := False\<rparr>"

subsection \<open>Scene objects and the store\<close>

type_synonym ref = nat

type_synonym vertex = "real \<times> real \<times> real"

record geometryObj =
  position_attr :: "vertex list"
  geometry_disposed :: nat

record materialObj =
  material_color :: nat
  transparent :: bool
  opacity :: real
  linewidth :: real
  material_disposed :: nat

datatype kind = Line | LineSegments

record object3d =
  position_z :: real

record drawable = object3d +
  kind :: kind
  geometry :: ref
  material :: ref

record group = object3d +
  children :: "drawable list"

subsection \<open>\<^verbatim>\<open>createTunnelSection\<close> (lines 76 to 141)\<close>

text \<open>
  The library constructors, as far as the code uses them: a new object sits at position 0,
  a new group has no children, \<^verbatim>\<open>group.add\<close> appends a child.
\<close>

definition new_Line :: "ref \<Rightarrow> ref \<Rightarrow> drawable" where
  "new_Line g m = \<lparr>position_z = 0, kind = Line, geometry = g, material = m\<rparr>"

definition new_LineSegments :: "ref \<Rightarrow> ref \<Rightarrow> drawable" where
  "new_LineSegments g m = \<lparr>position_z = 0, kind = LineSegments, geometry = g, material = m\<rparr>"

definition new_Group :: group where
  "new_Group = \<lparr>position_z = 0, children = []\<rparr>"

definition add :: "drawable \<Rightarrow> group \<Rightarrow> group" where
  "add obj grp = grp\<lparr>children := children grp @ [obj]\<rparr>"

definition new_material :: "config \<Rightarrow> materialObj" where
  "new_material cfg =
     \<lparr>material_color = color cfg, transparent = True, opacity = baseOpacity cfg,
      linewidth = lineWidth cfg, material_disposed = 0\<rparr>"

definition new_geometry :: "vertex list \<Rightarrow> geometryObj" where
  "new_geometry vs = \<lparr>position_attr = vs, geometry_disposed = 0\<rparr>"

text \<open>
  Each iteration of a vertex loop pushes three numbers and the attribute is built with item
  size 3, so the buffer is modelled as the list of the pushed triples. Lines 84 to 91:
\<close>

definition ringVertices :: "config \<Rightarrow> vertex list" where
  "ringVertices cfg =
     fold (\<lambda>i vs. let theta = (real i / real (segmentDetail cfg)) * pi * 2
                   in vs @ [(cos theta * radius cfg, sin theta * radius cfg, 0)])
          [0..<Suc (segmentDetail cfg)] []"

text \<open>Lines 113 to 125:\<close>

definition steps :: nat where
  "steps = 200"

definition lineVertices :: "config \<Rightarrow> vertex list" where
  "lineVertices cfg =
     fold (\<lambda>i vs. let theta = (real i / real (segments cfg)) * pi * 2
                   in fold (\<lambda>j vs. let z = (real j / real steps) * length_cfg cfg - length_cfg cfg / 2
                                    in vs @ [(cos theta * radius cfg, sin theta * radius cfg, z)])
                           [0..<Suc steps] vs)
          [0..<segments cfg] []"

text \<open>
  The function allocates, in this order, the ring geometry, the ring material, the line
  geometry and the line material, and returns the group with the grown stores.
\<close>

definition createTunnelSection ::
  "config \<Rightarrow> geometryObj list \<Rightarrow> materialObj list \<Rightarrow> group \<times> geometryObj list \<times> materialObj list"
where
  "createTunnelSection cfg geos mats =
     (let grp = new_Group;
          ringGeometry = length geos;
          geos1 = geos @ [new_geometry (ringVertices cfg)];
          ringMaterial = length mats;
          mats1 = mats @ [new_material cfg];
          grp1 = fold (\<lambda>i g. let ring = new_Line ringGeometry ringMaterial;
                                  ring' = ring\<lparr>position_z :=
                                            (real i / real (rings cfg)) * length_cfg cfg - length_cfg cfg / 2\<rparr>
                              in add ring' g)
                      [0..<Suc (rings cfg)] grp;
          lineGeometry = length geos1;
          geos2 = geos1 @ [new_geometry (lineVertices cfg)];
          lineMaterial = length mats1;
          mats2 = mats1 @ [new_material cfg];
          lines = new_LineSegments lineGeometry lineMaterial
      in (add lines grp1, geos2, mats2))"

subsection \<open>The state of one instance\<close>

text \<open>
  The constructor registers an arrow function on \<^verbatim>\<open>window\<close> (line 70); the method
  \<^verbatim>\<open>handleResize\<close>, bound at line 66, is another function object.
\<close>

datatype listener = DebounceArrow | BoundHandleResize

type_synonym listeners = "(string \<times> listener) list"

definition addEventListener :: "string \<Rightarrow> listener \<Rightarrow> listeners \<Rightarrow> listeners" where
  "addEventListener ty l ls = (if (ty, l) \<in> set ls then ls else ls @ [(ty, l)])"

definition removeEventListener :: "string \<Rightarrow> listener \<Rightarrow> listeners \<Rightarrow> listeners" where
  "removeEventListener ty l ls = removeAll (ty, l) ls"

text \<open>
  \<open>scene\<close> holds the indices (into \<open>tunnelSections\<close>) of the groups that are in the scene,
  \<open>pendingFrames\<close> counts the callbacks queued by \<^verbatim>\<open>requestAnimationFrame\<close> and not yet
  run, \<open>renders\<close> counts the calls of \<^verbatim>\<open>renderer.render\<close>.
\<close>

record state =
  config :: config
  geometries :: "geometryObj list"
  materials :: "materialObj list"
  tunnelSections :: "group list"
  scene :: "nat list"
  isAnimating :: bool
  clock :: clock
  deltaTime :: real
  pendingFrames :: nat
  windowListeners :: listeners
  renders :: nat
  renderer_disposed :: nat

subsection \<open>The constructor (lines 4 to 74)\<close>

definition add_section ::
  "config \<Rightarrow> nat \<Rightarrow> group list \<times> nat list \<times> geometryObj list \<times> materialObj list
     \<Rightarrow> group list \<times> nat list \<times> geometryObj list \<times> materialObj list"
where
  "add_section cfg i acc =
     (case acc of (secs, scn, geos, mats) \<Rightarrow>
        (case createTunnelSection cfg geos mats of (section, geos', mats') \<Rightarrow>
           (secs @ [section\<lparr>position_z := real i * (length_cfg cfg / real (bufferSize cfg))\<rparr>],
            scn @ [length secs], geos', mats')))"

definition constructor :: "config \<Rightarrow> state" where
  "constructor cfg =
     (case fold (add_section cfg) [0..<bufferSize cfg] ([], [], [], []) of
        (secs, scn, geos, mats) \<Rightarrow>
          \<lparr>config = cfg, geometries = geos, materials = mats, tunnelSections = secs,
           scene = scn, isAnimating = False, clock = new_clock, deltaTime = 0,
           pendingFrames = 0,
           windowListeners = addEventListener ''resize'' DebounceArrow [],
           renders = 0, renderer_disposed = 0\<rparr>)"

subsection \<open>\<^verbatim>\<open>animate\<close> (lines 143 to 172)\<close>

text \<open>Lines 154 to 159: the advance of one section's offset and the wraparound.\<close>

definition advance :: "config \<Rightarrow> real \<Rightarrow> real \<Rightarrow> real" where
  "advance cfg sectionLength z =
     (let z1 = z + speed cfg
      in if z1 > sectionLength then - sectionLength * (real (bufferSize cfg) - 1) else z1)"

text \<open>Lines 163 to 166: the opacity of a child at local position \<open>cz\<close> in a section at \<open>sz\<close>.\<close>

definition child_opacity :: "config \<Rightarrow> real \<Rightarrow> real \<Rightarrow> real" where
  "child_opacity cfg cz sz =
     (let distanceFromCamera = \<bar>cz + sz\<bar>
      in max (2 / 10) (min (7 / 10)
           (1 - (distanceFromCamera / (length_cfg cfg * (7 / 10))) powr (3 / 2))))"

text \<open>Line 167: the assignment goes to the material object that the child refers to.\<close>

definition set_child_opacity :: "config \<Rightarrow> real \<Rightarrow> drawable \<Rightarrow> materialObj list \<Rightarrow> materialObj list" where
  "set_child_opacity cfg sz child mats =
     mats[material child := (mats ! material child)\<lparr>opacity := child_opacity cfg (position_z child) sz\<rparr>]"

definition update_section ::
  "config \<Rightarrow> real \<Rightarrow> group \<Rightarrow> materialObj list \<Rightarrow> group \<times> materialObj list"
where
  "update_section cfg sectionLength section mats =
     (let z = advance cfg sectionLength (position_z section)
      in (section\<lparr>position_z := z\<rparr>, fold (set_child_opacity cfg z) (children section) mats))"

fun update_sections ::
  "config \<Rightarrow> real \<Rightarrow> group list \<Rightarrow> materialObj list \<Rightarrow> group list \<times> materialObj list"
where
  "update_sections cfg sectionLength [] mats = ([], mats)"
| "update_sections cfg sectionLength (section # rest) mats =
     (case update_section cfg sectionLength section mats of (section', mats') \<Rightarrow>
        (case update_sections cfg sectionLength rest mats' of (rest', mats'') \<Rightarrow>
           (section' # rest', mats'')))"

text \<open>
  \<open>currentTime\<close> is the argument of the callback, which the body never reads; \<open>now\<close> is
  the reading of the time source taken by \<^verbatim>\<open>clock.getDelta()\<close>.
\<close>

definition animate :: "real \<Rightarrow> real \<Rightarrow> state \<Rightarrow> state" where
  "animate currentTime now s =
     (if \<not> isAnimating s then s
      else
        (let s1 = s\<lparr>pendingFrames := Suc (pendingFrames s)\<rparr>;
             (delta, c) = clock_getDelta now (clock s1);
             s2 = s1\<lparr>deltaTime := delta, clock := c\<rparr>;
             sectionLength = length_cfg (config s2) / real (bufferSize (config s2));
             (secs, mats) = update_sections (config s2) sectionLength (tunnelSections s2) (materials s2)
         in s2\<lparr>tunnelSections := secs, materials := mats, renders := Suc (renders s2)\<rparr>))"

subsection \<open>\<^verbatim>\<open>start\<close>, \<^verbatim>\<open>stop\<close>, \<^verbatim>\<open>dispose\<close> (lines 184 to 208)\<close>

text \<open>\<open>start\<close> reads the time twice: in \<^verbatim>\<open>clock.start()\<close> and in the nested \<^verbatim>\<open>animate(0)\<close>.\<close>

definition start :: "real \<Rightarrow> real \<Rightarrow> state \<Rightarrow> state" where
  "start now now' s =
     (if \<not> isAnimating s
      then animate 0 now' (s\<lparr>isAnimating := True, clock := clock_start now (clock s)\<rparr>)
      else s)"

definition stop :: "real \<Rightarrow> state \<Rightarrow> state" where
  "stop now s = s\<lparr>isAnimating := False, clock := clock_stop now (clock s)\<rparr>"

text \<open>
  \<^verbatim>\<open>traverse\<close> visits the group, which has neither geometry nor material, and then each
  child; for a child both \<^verbatim>\<open>dispose\<close> methods are called on the objects it refers to.
\<close>

definition dispose_object :: "drawable \<Rightarrow> geometryObj list \<times> materialObj list \<Rightarrow> geometryObj list \<times> materialObj list" where
  "dispose_object obj st =
     (case st of (geos, mats) \<Rightarrow>
        (geos[geometry obj := (geos ! geometry obj)\<lparr>geometry_disposed := Suc (geometry_disposed (geos ! geometry obj))\<rparr>],
         mats[material obj := (mats ! material obj)\<lparr>material_disposed := Suc (material_disposed (mats ! material obj))\<rparr>]))"

definition dispose_section :: "nat \<Rightarrow> state \<Rightarrow> state" where
  "dispose_section i s =
     (let s1 = s\<lparr>scene := removeAll i (scene s)\<rparr>;
          (geos, mats) = fold dispose_object (children (tunnelSections s1 ! i)) (geometries s1, materials s1)
      in s1\<lparr>geometries := geos, materials := mats\<rparr>)"

definition dispose :: "real \<Rightarrow> state \<Rightarrow> state" where
  "dispose now s =
     (let s1 = stop now s;
          s2 = s1\<lparr>windowListeners := removeEventListener ''resize'' BoundHandleResize (windowListeners s1)\<rparr>;
          s3 = fold dispose_section [0..<length (tunnelSections s2)] s2
      in s3\<lparr>renderer_disposed := Suc (renderer_disposed s3)\<rparr>)"

subsection \<open>Runs\<close>

text \<open>
  What can happen to an instance: a call of one of the three public methods, or the
  display scheduler running one queued frame callback.
\<close>

datatype event = Start real real | Stop real | Frame real real | Dispose real

fun exec :: "event \<Rightarrow> state \<Rightarrow> state" where
  "exec (Start now now') s = start now now' s"
| "exec (Stop now) s = stop now s"
| "exec (Frame currentTime now) s =
     (if pendingFrames s = 0 then s
      else animate currentTime now (s\<lparr>pendingFrames := pendingFrames s - 1\<rparr>))"
| "exec (Dispose now) s = dispose now s"

definition run :: "event list \<Rightarrow> state \<Rightarrow> state" where
  "run evs s = fold exec evs s"

section \<open>Notions used in the statements and proofs\<close>



text \<open>The vertex that the line loop pushes for angle index \<open>i\<close> and axial index \<open>j\<close>.\<close>

definition line_point :: "config \<Rightarrow> nat \<Rightarrow> nat \<Rightarrow> vertex" where
  "line_point cfg i j =
     (cos ((real i / real (segments cfg)) * pi * 2) * radius cfg,
      sin ((real i / real (segments cfg)) * pi * 2) * radius cfg,
      (real j / real steps) * length_cfg cfg - length_cfg cfg / 2)"

text \<open>
  The ring that the ring loop adds in iteration \<open>i\<close>, and the children of a section whose
  ring geometry and ring material were allocated at \<open>g\<close> and \<open>m\<close>.
\<close>

definition ring_drawable :: "config \<Rightarrow> ref \<Rightarrow> ref \<Rightarrow> nat \<Rightarrow> drawable" where
  "ring_drawable cfg g m i =
     \<lparr>position_z = (real i / real (rings cfg)) * length_cfg cfg - length_cfg cfg / 2,
      kind = Line, geometry = g, material = m\<rparr>"

definition section_children :: "config \<Rightarrow> ref \<Rightarrow> ref \<Rightarrow> drawable list" where
  "section_children cfg g m =
     map (ring_drawable cfg g m) [0..<Suc (rings cfg)] @ [new_LineSegments (Suc g) (Suc m)]"

text \<open>The section that the constructor builds in iteration \<open>i\<close>.\<close>

definition built_section :: "config \<Rightarrow> nat \<Rightarrow> group" where
  "built_section cfg i =
     \<lparr>position_z = real i * (length_cfg cfg / real (bufferSize cfg)),
      children = section_children cfg (2 * i) (2 * i)\<rparr>"

text \<open>What no event of a run changes.\<close>

definition inv :: "config \<Rightarrow> state \<Rightarrow> bool" where
  "inv cfg s \<longleftrightarrow>
     config s = cfg \<and>
     map children (tunnelSections s) = map (\<lambda>i. section_children cfg (2 * i) (2 * i)) [0..<bufferSize cfg] \<and>
     length (materials s) = 2 * bufferSize cfg \<and>
     length (geometries s) = 2 * bufferSize cfg \<and>
     windowListeners s = [(''resize'', DebounceArrow)]"

text \<open>No section lies behind the position that the wraparound assigns.\<close>

definition lower_ok :: "state \<Rightarrow> bool" where
  "lower_ok s \<longleftrightarrow>
     (\<forall>i < length (tunnelSections s).
        - (length_cfg (config s) / real (bufferSize (config s))) * (real (bufferSize (config s)) - 1)
          \<le> position_z (tunnelSections s ! i))"

text \<open>The default configuration with a speed of one half, which binary64 represents exactly.\<close>

definition half_speed_config :: config where
  "half_speed_config = default_config\<lparr>speed := 1 / 2\<rparr>"

text \<open>All drawables of a list refer to one material.\<close>

definition single_material :: "drawable list \<Rightarrow> bool" where
  "single_material cs \<longleftrightarrow> (\<forall>c \<in> set cs. \<forall>d \<in> set cs. material c = material d)"

section \<open>Lemmas\<close>

subsection \<open>The opacity formula and the offset update\<close>



lemma update_sections_Cons_fst:
  "fst (update_sections cfg sl (a # secs) mats) =
     fst (update_section cfg sl a mats) # fst (update_sections cfg sl secs (snd (update_section cfg sl a mats)))"
  by (simp split: prod.splits)

lemma update_sections_Cons_snd:
  "snd (update_sections cfg sl (a # secs) mats) =
     snd (update_sections cfg sl secs (snd (update_section cfg sl a mats)))"
  by (simp split: prod.splits)

lemma update_sections_length [simp]:
  "length (fst (update_sections cfg sl secs mats)) = length secs"
  by (induction secs arbitrary: mats) (simp_all add: update_sections_Cons_fst del: update_sections.simps(2))

lemma update_sections_nth:
  "i < length secs \<Longrightarrow>
   position_z (fst (update_sections cfg sl secs mats) ! i) = advance cfg sl (position_z (secs ! i))
   \<and> children (fst (update_sections cfg sl secs mats) ! i) = children (secs ! i)"
proof (induction secs arbitrary: mats i)
  case Nil
  then show ?case by simp
next
  case (Cons a secs)
  then show ?case
    by (cases i) (simp_all add: update_sections_Cons_fst update_section_def Let_def del: update_sections.simps(2))
qed

lemma set_child_opacity_length [simp]: "length (set_child_opacity cfg z c mats) = length mats"
  by (simp add: set_child_opacity_def)

lemma fold_set_child_opacity_length [simp]:
  "length (fold (set_child_opacity cfg z) cs mats) = length mats"
  by (induction cs arbitrary: mats) auto

lemma update_sections_mats_length [simp]:
  "length (snd (update_sections cfg sl secs mats)) = length mats"
  by (induction secs arbitrary: mats)
     (simp_all add: update_sections_Cons_snd update_section_def Let_def del: update_sections.simps(2))

lemma animate_running:
  "isAnimating s \<Longrightarrow>
   animate ct now s =
     s\<lparr>pendingFrames := Suc (pendingFrames s),
       deltaTime := fst (clock_getDelta now (clock s)),
       clock := snd (clock_getDelta now (clock s)),
       tunnelSections := fst (update_sections (config s) (length_cfg (config s) / real (bufferSize (config s))) (tunnelSections s) (materials s)),
       materials := snd (update_sections (config s) (length_cfg (config s) / real (bufferSize (config s))) (tunnelSections s) (materials s)),
       renders := Suc (renders s)\<rparr>"
  by (simp add: animate_def Let_def split: prod.splits)

lemma animate_stopped: "\<not> isAnimating s \<Longrightarrow> animate ct now s = s"
  by (simp add: animate_def)

lemma advance_bounds:
  assumes "0 \<le> sl" "0 < bufferSize cfg" "0 \<le> speed cfg" "- sl * (real (bufferSize cfg) - 1) \<le> z"
  shows "- sl * (real (bufferSize cfg) - 1) \<le> advance cfg sl z \<and> advance cfg sl z \<le> sl"
proof -
  define lo where "lo = - sl * (real (bufferSize cfg) - 1)"
  have "0 \<le> real (bufferSize cfg) - 1" using assms(2) by simp
  then have "0 \<le> sl * (real (bufferSize cfg) - 1)" using assms(1) by (rule mult_nonneg_nonneg[rotated])
  then have lo: "lo \<le> 0" by (simp add: lo_def)
  have adv: "advance cfg sl z = (if sl < z + speed cfg then lo else z + speed cfg)"
    by (simp add: advance_def Let_def lo_def)
  have "lo \<le> z" using assms(4) by (simp add: lo_def)
  then have "lo \<le> advance cfg sl z \<and> advance cfg sl z \<le> sl"
    using lo assms(1,3) unfolding adv by auto
  then show ?thesis by (simp add: lo_def)
qed

subsection \<open>The loops of the builder in closed form\<close>

lemma fold_push: "fold (\<lambda>i vs. vs @ [f i]) xs acc = acc @ map f xs"
  by (induction xs arbitrary: acc) simp_all

lemma fold_add: "fold (\<lambda>i g. add (f i) g) xs grp = grp\<lparr>children := children grp @ map f xs\<rparr>"
  by (induction xs arbitrary: grp) (simp_all add: add_def)

lemma ringVertices_map:
  "ringVertices cfg =
     map (\<lambda>i. (cos ((real i / real (segmentDetail cfg)) * pi * 2) * radius cfg,
               sin ((real i / real (segmentDetail cfg)) * pi * 2) * radius cfg, 0))
         [0..<Suc (segmentDetail cfg)]"
  unfolding ringVertices_def Let_def by (simp only: fold_push append_Nil)

lemma fold_push_rows:
  "fold (\<lambda>i vs. fold (\<lambda>j vs. vs @ [f i j]) ys vs) xs acc = acc @ concat (map (\<lambda>i. map (f i) ys) xs)"
  by (induction xs arbitrary: acc) (simp_all add: fold_push)

lemma lineVertices_concat:
  "lineVertices cfg = concat (map (\<lambda>i. map (line_point cfg i) [0..<Suc steps]) [0..<segments cfg])"
proof -
  have "lineVertices cfg = fold (\<lambda>i vs. fold (\<lambda>j vs. vs @ [line_point cfg i j]) [0..<Suc steps] vs) [0..<segments cfg] []"
    unfolding lineVertices_def Let_def line_point_def ..
  then show ?thesis by (simp only: fold_push_rows append_Nil)
qed

lemma createTunnelSection_eq:
  "createTunnelSection cfg geos mats =
     (\<lparr>position_z = 0, children = section_children cfg (length geos) (length mats)\<rparr>,
      geos @ [new_geometry (ringVertices cfg), new_geometry (lineVertices cfg)],
      mats @ [new_material cfg, new_material cfg])"
proof -
  have ring: "(\<lambda>i g. let ring = new_Line (length geos) (length mats);
                          ring' = ring\<lparr>position_z := (real i / real (rings cfg)) * length_cfg cfg - length_cfg cfg / 2\<rparr>
                      in add ring' g) = (\<lambda>i g. add (ring_drawable cfg (length geos) (length mats) i) g)"
    by (simp add: Let_def new_Line_def ring_drawable_def)
  show ?thesis
    unfolding createTunnelSection_def Let_def
    apply (simp only: ring[unfolded Let_def] fold_add)
    apply (simp add: new_Group_def add_def section_children_def)
    done
qed

lemma replicate_two_length: "length (concat (replicate n [a, b])) = 2 * n"
  by (induction n) simp_all

lemma fold_add_section:
  "fold (add_section cfg) [0..<n] ([], [], [], []) =
     (map (built_section cfg) [0..<n], [0..<n],
      concat (replicate n [new_geometry (ringVertices cfg), new_geometry (lineVertices cfg)]),
      concat (replicate n [new_material cfg, new_material cfg]))"
proof (induction n)
  case 0
  then show ?case by simp
next
  case (Suc n)
  have rep: "\<And>a b. concat (replicate n [a, b]) @ [a, b] = concat (replicate (Suc n) [a, b])"
    by (induction n) simp_all
  show ?case
    apply (simp only: upt_Suc_append[OF le0] fold_append o_apply Suc fold_simps)
    apply (simp only: add_section_def createTunnelSection_eq prod.case replicate_two_length length_map length_upt minus_nat.diff_0 rep)
    apply (simp add: built_section_def)
    done
qed

lemma constructor_eq:
  "constructor cfg =
     \<lparr>config = cfg,
      geometries = concat (replicate (bufferSize cfg) [new_geometry (ringVertices cfg), new_geometry (lineVertices cfg)]),
      materials = concat (replicate (bufferSize cfg) [new_material cfg, new_material cfg]),
      tunnelSections = map (built_section cfg) [0..<bufferSize cfg],
      scene = [0..<bufferSize cfg], isAnimating = False, clock = new_clock, deltaTime = 0,
      pendingFrames = 0, windowListeners = [(''resize'', DebounceArrow)],
      renders = 0, renderer_disposed = 0\<rparr>"
  by (simp add: constructor_def fold_add_section addEventListener_def)

subsection \<open>Invariants of runs\<close>

lemma inv_constructor: "inv cfg (constructor cfg)"
  by (simp add: inv_def constructor_eq replicate_two_length built_section_def o_def)

lemma update_sections_children [simp]:
  "map children (fst (update_sections cfg sl secs mats)) = map children secs"
  by (rule nth_equalityI) (simp_all add: update_sections_nth)

lemma fold_dispose_object_length [simp]:
  "length (fst (fold dispose_object cs st)) = length (fst st)"
  "length (snd (fold dispose_object cs st)) = length (snd st)"
  by (induction cs arbitrary: st) (simp_all add: dispose_object_def split: prod.splits)

lemma dispose_section_fields [simp]:
  "config (dispose_section i s) = config s"
  "tunnelSections (dispose_section i s) = tunnelSections s"
  "isAnimating (dispose_section i s) = isAnimating s"
  "clock (dispose_section i s) = clock s"
  "pendingFrames (dispose_section i s) = pendingFrames s"
  "windowListeners (dispose_section i s) = windowListeners s"
  "length (materials (dispose_section i s)) = length (materials s)"
  "length (geometries (dispose_section i s)) = length (geometries s)"
  by (simp_all add: dispose_section_def Let_def split: prod.splits)
     (metis fold_dispose_object_length fst_conv snd_conv)+

lemma fold_dispose_section_fields [simp]:
  "config (fold dispose_section is s) = config s"
  "tunnelSections (fold dispose_section is s) = tunnelSections s"
  "isAnimating (fold dispose_section is s) = isAnimating s"
  "clock (fold dispose_section is s) = clock s"
  "pendingFrames (fold dispose_section is s) = pendingFrames s"
  "windowListeners (fold dispose_section is s) = windowListeners s"
  "length (materials (fold dispose_section is s)) = length (materials s)"
  "length (geometries (fold dispose_section is s)) = length (geometries s)"
  by (induction "is" arbitrary: s) simp_all

lemma inv_stop: "inv cfg s \<Longrightarrow> inv cfg (stop now s)"
  by (simp add: inv_def stop_def)

lemma inv_animate: "inv cfg s \<Longrightarrow> inv cfg (animate ct now s)"
  by (cases "isAnimating s") (simp_all add: animate_running animate_stopped inv_def)

lemma inv_start: "inv cfg s \<Longrightarrow> inv cfg (start now now' s)"
proof -
  assume i: "inv cfg s"
  then have "inv cfg (s\<lparr>isAnimating := True, clock := clock_start now (clock s)\<rparr>)"
    by (simp add: inv_def)
  then show ?thesis using i by (simp add: start_def inv_animate)
qed

lemma inv_dispose: "inv cfg s \<Longrightarrow> inv cfg (dispose now s)"
  by (simp add: inv_def dispose_def Let_def stop_def removeEventListener_def)

lemma inv_exec: "inv cfg s \<Longrightarrow> inv cfg (exec e s)"
proof (cases e)
  case (Frame ct now)
  assume i: "inv cfg s"
  then have "inv cfg (s\<lparr>pendingFrames := pendingFrames s - 1\<rparr>)" by (simp add: inv_def)
  then show ?thesis using i Frame by (simp add: inv_animate)
qed (simp_all add: inv_start inv_stop inv_dispose)

lemma inv_run: "inv cfg s \<Longrightarrow> inv cfg (run evs s)"
  unfolding run_def by (induction evs arbitrary: s) (simp_all add: inv_exec)

lemma inv_reachable: "inv cfg (run evs (constructor cfg))"
  by (rule inv_run[OF inv_constructor])

lemma stop_sections [simp]: "tunnelSections (stop now s) = tunnelSections s"
  by (simp add: stop_def)

lemma dispose_sections [simp]: "tunnelSections (dispose now s) = tunnelSections s"
  by (simp add: dispose_def Let_def)

lemma animate_sections:
  "isAnimating s \<Longrightarrow> i < length (tunnelSections s) \<Longrightarrow>
   position_z (tunnelSections (animate ct now s) ! i) =
     advance (config s) (length_cfg (config s) / real (bufferSize (config s))) (position_z (tunnelSections s ! i))"
  by (simp add: animate_running update_sections_nth)

lemma animate_sections_length [simp]:
  "length (tunnelSections (animate ct now s)) = length (tunnelSections s)"
  by (cases "isAnimating s") (simp_all add: animate_running animate_stopped)

lemma animate_config [simp]: "config (animate ct now s) = config s"
  by (cases "isAnimating s") (simp_all add: animate_running animate_stopped)

lemma lower_ok_animate:
  assumes "0 < length_cfg (config s)" "0 < bufferSize (config s)" "0 \<le> speed (config s)" "lower_ok s"
  shows "lower_ok (animate ct now s)"
proof (cases "isAnimating s")
  case True
  have sl: "0 \<le> length_cfg (config s) / real (bufferSize (config s))" using assms(1) by simp
  show ?thesis
    unfolding lower_ok_def
  proof (intro allI impI)
    fix i assume "i < length (tunnelSections (animate ct now s))"
    then have i: "i < length (tunnelSections s)" by simp
    with assms(4) have "- (length_cfg (config s) / real (bufferSize (config s))) * (real (bufferSize (config s)) - 1)
          \<le> position_z (tunnelSections s ! i)" by (simp add: lower_ok_def)
    from advance_bounds[OF sl assms(2,3) this]
    show "- (length_cfg (config (animate ct now s)) / real (bufferSize (config (animate ct now s)))) * (real (bufferSize (config (animate ct now s))) - 1)
          \<le> position_z (tunnelSections (animate ct now s) ! i)"
      by (simp add: animate_sections[OF True i])
  qed
next
  case False
  then show ?thesis using assms(4) by (simp add: animate_stopped)
qed

lemma lower_ok_cong:
  "tunnelSections s' = tunnelSections s \<Longrightarrow> config s' = config s \<Longrightarrow> lower_ok s' = lower_ok s"
  by (simp add: lower_ok_def)

lemma stop_config [simp]: "config (stop now s) = config s"
  by (simp add: stop_def)

lemma dispose_config [simp]: "config (dispose now s) = config s"
  by (simp add: dispose_def Let_def)

lemma lower_ok_exec:
  assumes "0 < length_cfg (config s)" "0 < bufferSize (config s)" "0 \<le> speed (config s)" "lower_ok s"
  shows "lower_ok (exec e s)"
proof (cases e)
  case (Start now now')
  let ?s1 = "s\<lparr>isAnimating := True, clock := clock_start now (clock s)\<rparr>"
  have "lower_ok ?s1" using assms(4) by (simp add: lower_ok_def)
  then have "lower_ok (animate 0 now' ?s1)" using assms(1-3) by (intro lower_ok_animate) simp_all
  then show ?thesis using Start assms(4) by (simp add: start_def)
next
  case (Stop now)
  then show ?thesis using assms(4) by (simp add: lower_ok_cong[of "stop now s" s])
next
  case (Frame ct now)
  let ?s1 = "s\<lparr>pendingFrames := pendingFrames s - 1\<rparr>"
  have "lower_ok ?s1" using assms(4) by (simp add: lower_ok_def)
  then have "lower_ok (animate ct now ?s1)" using assms(1-3) by (intro lower_ok_animate) simp_all
  then show ?thesis using Frame assms(4) by simp
next
  case (Dispose now)
  then show ?thesis using assms(4) by (simp add: lower_ok_cong[of "dispose now s" s])
qed

lemma lower_ok_constructor:
  assumes "0 < length_cfg cfg"
  shows "lower_ok (constructor cfg)"
proof -
  have a: "0 \<le> length_cfg cfg / real (bufferSize cfg) * (real (bufferSize cfg) - 1)"
  proof (cases "bufferSize cfg")
    case 0
    then show ?thesis by simp
  next
    case (Suc n)
    then show ?thesis using assms by simp
  qed
  have "- (length_cfg cfg / real (bufferSize cfg)) * (real (bufferSize cfg) - 1)
      \<le> real i * (length_cfg cfg / real (bufferSize cfg))" for i
  proof -
    have b: "0 \<le> real i * (length_cfg cfg / real (bufferSize cfg))" using assms by simp
    have "- (length_cfg cfg / real (bufferSize cfg)) * (real (bufferSize cfg) - 1)
        = - (length_cfg cfg / real (bufferSize cfg) * (real (bufferSize cfg) - 1))"
      by (simp only: mult_minus_left)
    with a b show ?thesis by linarith
  qed
  then show ?thesis
    by (simp add: lower_ok_def constructor_eq built_section_def)
qed

lemma lower_ok_reachable:
  assumes "0 < length_cfg cfg" "0 < bufferSize cfg" "0 \<le> speed cfg"
  shows "lower_ok (run evs (constructor cfg))"
proof -
  have "inv cfg s \<Longrightarrow> lower_ok s \<Longrightarrow> lower_ok (fold exec evs s)" for s
  proof (induction evs arbitrary: s)
    case Nil
    then show ?case by simp
  next
    case (Cons e evs)
    from Cons.prems(1) have c: "config s = cfg" by (simp add: inv_def)
    have "lower_ok (exec e s)" using lower_ok_exec[of s e] assms c Cons.prems(2) by simp
    with Cons.IH[OF inv_exec[OF Cons.prems(1)]] show ?case by simp
  qed
  then show ?thesis unfolding run_def using inv_constructor lower_ok_constructor[OF assms(1)] by blast
qed

lemma exec_frame_step:
  assumes "e = Frame ct now \<and> isAnimating s \<and> 0 < pendingFrames s \<or> e = Start now now' \<and> \<not> isAnimating s"
  obtains s1 ct' now'' where "exec e s = animate ct' now'' s1" "isAnimating s1"
    "tunnelSections s1 = tunnelSections s" "config s1 = config s" "materials s1 = materials s"
  using assms
proof (elim disjE conjE)
  assume "e = Frame ct now" "isAnimating s" "0 < pendingFrames s"
  then show thesis by (intro that[of ct now "s\<lparr>pendingFrames := pendingFrames s - 1\<rparr>"]) simp_all
next
  assume "e = Start now now'" "\<not> isAnimating s"
  then show thesis
    by (intro that[of 0 now' "s\<lparr>isAnimating := True, clock := clock_start now (clock s)\<rparr>"])
       (simp_all add: start_def)
qed

lemma advance_iter:
  "0 \<le> speed cfg \<Longrightarrow> z + real n * speed cfg \<le> sl \<Longrightarrow> (advance cfg sl ^^ n) z = z + real n * speed cfg"
proof (induction n)
  case 0
  then show ?case by simp
next
  case (Suc n)
  from Suc.prems have "z + real n * speed cfg \<le> sl" by (simp add: algebra_simps)
  from Suc.IH[OF Suc.prems(1) this] Suc.prems(2) show ?case
    by (simp add: advance_def Let_def algebra_simps)
qed

lemma run_Cons: "run (e # evs) s = run evs (exec e s)"
  by (simp add: run_def)

lemma frame_offsets:
  assumes "isAnimating s" "0 < pendingFrames s"
  shows "isAnimating (exec (Frame ct now) s) \<and> 0 < pendingFrames (exec (Frame ct now) s)
    \<and> config (exec (Frame ct now) s) = config s
    \<and> map position_z (tunnelSections (exec (Frame ct now) s)) =
        map (advance (config s) (length_cfg (config s) / real (bufferSize (config s)))) (map position_z (tunnelSections s))"
  using assms
  by (auto simp: animate_running update_sections_nth intro!: nth_equalityI)

lemma frames_offsets:
  assumes "isAnimating s" "0 < pendingFrames s"
  shows "map position_z (tunnelSections (run (replicate n (Frame ct now)) s)) =
        map (advance (config s) (length_cfg (config s) / real (bufferSize (config s))) ^^ n) (map position_z (tunnelSections s))"
  using assms
proof (induction n arbitrary: s)
  case 0
  then show ?case by (simp add: run_def)
next
  case (Suc n)
  note f = frame_offsets[OF Suc.prems, of ct now]
  have "map position_z (tunnelSections (run (replicate n (Frame ct now)) (exec (Frame ct now) s))) =
     map (advance (config s) (length_cfg (config s) / real (bufferSize (config s))) ^^ n)
       (map position_z (tunnelSections (exec (Frame ct now) s)))"
    using Suc.IH[of "exec (Frame ct now) s"] f by (simp del: exec.simps)
  then show ?case
    unfolding replicate_Suc run_Cons using f by (simp add: funpow_swap1 del: exec.simps)
qed

lemma start_offsets:
  assumes "\<not> isAnimating s"
  shows "isAnimating (start now now' s) \<and> 0 < pendingFrames (start now now' s)
    \<and> config (start now now' s) = config s
    \<and> map position_z (tunnelSections (start now now' s)) =
        map (advance (config s) (length_cfg (config s) / real (bufferSize (config s)))) (map position_z (tunnelSections s))"
  using assms
  by (auto simp: start_def animate_running update_sections_nth intro!: nth_equalityI)

lemma half_speed_simps:
  "length_cfg half_speed_config = 50" "bufferSize half_speed_config = 2" "speed half_speed_config = 1 / 2"
  by (simp_all add: half_speed_config_def default_config_def)

lemma half_speed_initial_offsets: "map position_z (tunnelSections (constructor half_speed_config)) = [0, 25]"
proof -
  have "[0..<2] = [0, Suc 0]" by (simp add: upt_rec)
  then show ?thesis
    by (simp add: constructor_eq built_section_def half_speed_simps)
qed

subsection \<open>Start, stop, dispose and the clock\<close>

lemma set_child_opacity_written:
  "material child < length mats \<Longrightarrow>
   opacity (set_child_opacity cfg sz child mats ! material child) = child_opacity cfg (position_z child) sz"
  by (simp add: set_child_opacity_def)

lemma clock_stop_twice: "clock_stop now' (clock_stop now c) = clock_stop now c"
  by (simp add: clock_stop_def clock_getDelta_def)

lemma dispose_flags:
  "isAnimating (dispose now s) = False" "clock (dispose now s) = clock_stop now (clock s)"
  by (simp_all add: dispose_def Let_def stop_def)


lemma start_fields:
  assumes "\<not> isAnimating s"
  shows "isAnimating (start now now' s)"
    and "pendingFrames (start now now' s) = Suc (pendingFrames s)"
    and "clock (start now now' s) =
           (clock s)\<lparr>startTime := now, oldTime := now', elapsedTime := (now' - now) / 1000, running := True\<rparr>"
    and "deltaTime (start now now' s) = (now' - now) / 1000"
  using assms
  by (simp_all add: start_def animate_running clock_getDelta_def clock_start_def Let_def)

text \<open>
  The queued callback is not cancelled by \<^verbatim>\<open>stop()\<close>: a \<^verbatim>\<open>start()\<close> that follows before
  the callback has run queues a second one.
\<close>

lemma stop_then_start_queues_again:
  "pendingFrames (start t3 t4 (stop t2 (start t0 t1 (constructor cfg)))) = 2"
proof -
  have c: "\<not> isAnimating (constructor cfg)" "pendingFrames (constructor cfg) = 0"
    by (simp_all add: constructor_eq)
  have "\<not> isAnimating (stop t2 (start t0 t1 (constructor cfg)))"
    "pendingFrames (stop t2 (start t0 t1 (constructor cfg))) = 1"
    using start_fields(2)[OF c(1), of t0 t1] c(2) by (simp_all add: stop_def)
  then show ?thesis using start_fields(2)[of "stop t2 (start t0 t1 (constructor cfg))" t3 t4] by simp
qed

lemma animate_delta_independent:
  "tunnelSections (animate ct now s) = tunnelSections (animate ct' now' s)"
  "materials (animate ct now s) = materials (animate ct' now' s)"
  by (cases "isAnimating s"; simp add: animate_running animate_stopped)+

lemma start_delta_independent:
  "tunnelSections (start t now s) = tunnelSections (start t' now' s)"
  "materials (start t now s) = materials (start t' now' s)"
  by (simp_all add: start_def animate_running)

lemma frame_delta_independent:
  "tunnelSections (exec (Frame ct now) s) = tunnelSections (exec (Frame ct' now') s)"
  "materials (exec (Frame ct now) s) = materials (exec (Frame ct' now') s)"
  using animate_delta_independent[of ct now "s\<lparr>pendingFrames := pendingFrames s - 1\<rparr>" ct' now']
  by simp_all

subsection \<open>The children of a section\<close>

lemma section_children_length [simp]: "length (section_children cfg g m) = rings cfg + 2"
  by (simp add: section_children_def)

lemma section_children_ring:
  "i \<le> rings cfg \<Longrightarrow> section_children cfg g m ! i = ring_drawable cfg g m i"
  unfolding section_children_def
  by (simp add: nth_append del: upt_Suc)

lemma section_children_lines:
  "section_children cfg g m ! Suc (rings cfg) = new_LineSegments (Suc g) (Suc m)"
  unfolding section_children_def
  by (simp add: nth_append del: upt_Suc)

lemma section_children_rings:
  "filter (\<lambda>c. kind c = Line) (section_children cfg g m) = map (ring_drawable cfg g m) [0..<Suc (rings cfg)]"
  unfolding section_children_def
  by (simp add: ring_drawable_def new_LineSegments_def filter_map o_def del: upt_Suc)

lemma reachable_children:
  assumes "k < bufferSize cfg"
  shows "children (tunnelSections (run evs (constructor cfg)) ! k) = section_children cfg (2 * k) (2 * k)"
proof -
  let ?s = "run evs (constructor cfg)"
  have m: "map children (tunnelSections ?s) = map (\<lambda>i. section_children cfg (2 * i) (2 * i)) [0..<bufferSize cfg]"
    using inv_reachable[of cfg evs] by (simp add: inv_def)
  then have "length (tunnelSections ?s) = bufferSize cfg"
    by (metis length_map length_upt diff_zero)
  then have "children (tunnelSections ?s ! k) = map children (tunnelSections ?s) ! k"
    using assms by simp
  also have "\<dots> = section_children cfg (2 * k) (2 * k)"
    unfolding m using assms by simp
  finally show ?thesis .
qed

lemma ring_z_bounds:
  assumes "0 < rings cfg" "0 < length_cfg cfg" "i \<le> rings cfg"
  shows "- (length_cfg cfg / 2) \<le> (real i / real (rings cfg)) * length_cfg cfg - length_cfg cfg / 2"
    and "(real i / real (rings cfg)) * length_cfg cfg - length_cfg cfg / 2 \<le> length_cfg cfg / 2"
proof -
  have q: "0 \<le> real i / real (rings cfg)" "real i / real (rings cfg) \<le> 1"
    using assms(1,3) by simp_all
  from q(1) assms(2) have "0 \<le> (real i / real (rings cfg)) * length_cfg cfg" by simp
  then show "- (length_cfg cfg / 2) \<le> (real i / real (rings cfg)) * length_cfg cfg - length_cfg cfg / 2"
    by simp
  from q(2) assms(2) have "(real i / real (rings cfg)) * length_cfg cfg \<le> 1 * length_cfg cfg"
    by (intro mult_right_mono) simp_all
  then have "(real i / real (rings cfg)) * length_cfg cfg \<le> length_cfg cfg / 2 + length_cfg cfg / 2"
    by (simp only: mult_1 field_sum_of_halves)
  then show "(real i / real (rings cfg)) * length_cfg cfg - length_cfg cfg / 2 \<le> length_cfg cfg / 2"
    by linarith
qed

lemma default_simps:
  "rings default_config = 60" "length_cfg default_config = 50" "bufferSize default_config = 2"
  "segments default_config = 72" "radius default_config = 10" "speed default_config = 3 / 100"
  by (simp_all add: default_config_def)

subsection \<open>The opacity pass\<close>

lemma set_child_opacity_other:
  "material c \<noteq> m \<Longrightarrow> set_child_opacity cfg z c mats ! m = mats ! m"
  by (simp add: set_child_opacity_def)

lemma fold_opacity_other:
  "m \<notin> material ` set cs \<Longrightarrow> fold (set_child_opacity cfg z) cs mats ! m = mats ! m"
  by (induction cs arbitrary: mats) (auto simp: set_child_opacity_other)

lemma fold_opacity_last:
  assumes "c \<in> set cs" and "material c < length mats"
  shows "opacity (fold (set_child_opacity cfg z) cs mats ! material c)
         = child_opacity cfg (position_z (last (filter (\<lambda>d. material d = material c) cs))) z"
  using assms(1)
proof (induction cs rule: rev_induct)
  case Nil
  then show ?case by simp
next
  case (snoc x xs)
  show ?case
  proof (cases "material x = material c")
    case True
    then have "material x < length (fold (set_child_opacity cfg z) xs mats)"
      using assms(2) by simp
    from set_child_opacity_written[OF this, of cfg z] show ?thesis using True by simp
  next
    case False
    then have "c \<in> set xs" using snoc.prems by auto
    from snoc.IH[OF this] False show ?thesis by (simp add: set_child_opacity_other)
  qed
qed

lemma update_sections_other:
  "\<forall>sec \<in> set secs. m \<notin> material ` set (children sec) \<Longrightarrow>
   snd (update_sections cfg sl secs mats) ! m = mats ! m"
proof (induction secs arbitrary: mats)
  case Nil
  then show ?case by simp
next
  case (Cons a secs)
  then show ?case
    by (simp add: update_sections_Cons_snd update_section_def Let_def fold_opacity_other
        del: update_sections.simps(2))
qed

lemma update_sections_opacity:
  assumes "k < length secs" and "c \<in> set (children (secs ! k))" and "material c < length mats"
    and "\<forall>j < length secs. j \<noteq> k \<longrightarrow> material c \<notin> material ` set (children (secs ! j))"
  shows "opacity (snd (update_sections cfg sl secs mats) ! material c)
         = child_opacity cfg
             (position_z (last (filter (\<lambda>d. material d = material c) (children (secs ! k)))))
             (advance cfg sl (position_z (secs ! k)))"
  using assms
proof (induction secs arbitrary: k mats)
  case Nil
  then show ?case by simp
next
  case (Cons a secs)
  let ?mats' = "fold (set_child_opacity cfg (advance cfg sl (position_z a))) (children a) mats"
  have snd_eq: "snd (update_sections cfg sl (a # secs) mats) = snd (update_sections cfg sl secs ?mats')"
    by (simp add: update_sections_Cons_snd update_section_def Let_def del: update_sections.simps(2))
  show ?case
  proof (cases k)
    case 0
    have "\<forall>sec \<in> set secs. material c \<notin> material ` set (children sec)"
    proof
      fix sec assume "sec \<in> set secs"
      then obtain j where j: "j < length secs" "secs ! j = sec" by (auto simp: in_set_conv_nth)
      with Cons.prems(4)[rule_format, of "Suc j"] 0 show "material c \<notin> material ` set (children sec)"
        by simp
    qed
    then have "snd (update_sections cfg sl secs ?mats') ! material c = ?mats' ! material c"
      by (rule update_sections_other)
    moreover have "c \<in> set (children a)" using Cons.prems(2) 0 by simp
    ultimately show ?thesis
      unfolding snd_eq using 0 fold_opacity_last[OF _ Cons.prems(3), of "children a" cfg]
      by simp
  next
    case (Suc k')
    have 1: "k' < length secs" using Cons.prems(1) Suc by simp
    have 2: "c \<in> set (children (secs ! k'))" using Cons.prems(2) Suc by simp
    have 3: "material c < length ?mats'" using Cons.prems(3) by simp
    have 4: "\<forall>j < length secs. j \<noteq> k' \<longrightarrow> material c \<notin> material ` set (children (secs ! j))"
    proof (intro allI impI)
      fix j assume "j < length secs" "j \<noteq> k'"
      with Cons.prems(4)[rule_format, of "Suc j"] Suc
      show "material c \<notin> material ` set (children (secs ! j))" by simp
    qed
    from Cons.IH[OF 1 2 3 4] show ?thesis unfolding snd_eq using Suc by simp
  qed
qed

lemma animate_materials:
  "isAnimating s \<Longrightarrow>
   materials (animate ct now s) =
     snd (update_sections (config s) (length_cfg (config s) / real (bufferSize (config s)))
            (tunnelSections s) (materials s))"
  by (simp add: animate_running)

lemma animate_children:
  "map children (tunnelSections (animate ct now s)) = map children (tunnelSections s)"
  by (cases "isAnimating s") (simp_all add: animate_running animate_stopped)

lemma section_children_materials:
  "material ` set (section_children cfg g m) = {m, Suc m}"
  by (auto simp: section_children_def ring_drawable_def new_LineSegments_def image_iff simp del: upt_Suc)

lemma section_children_last_ring:
  "last (filter (\<lambda>d. material d = m) (section_children cfg g m)) = ring_drawable cfg g m (rings cfg)"
proof -
  have "filter (\<lambda>d. material d = m) (section_children cfg g m) = map (ring_drawable cfg g m) [0..<Suc (rings cfg)]"
    unfolding section_children_def
    by (simp add: ring_drawable_def new_LineSegments_def filter_map o_def del: upt_Suc)
  then show ?thesis by (simp add: last_map del: upt_Suc)
qed


lemma reachable_lengths:
  "length (tunnelSections (run evs (constructor cfg))) = bufferSize cfg"
  "length (materials (run evs (constructor cfg))) = 2 * bufferSize cfg"
  "config (run evs (constructor cfg)) = cfg"
proof -
  let ?s = "run evs (constructor cfg)"
  have i: "inv cfg ?s" by (rule inv_reachable)
  then have "length (map children (tunnelSections ?s)) = bufferSize cfg" by (simp add: inv_def)
  then show "length (tunnelSections ?s) = bufferSize cfg" by simp
  from i show "length (materials ?s) = 2 * bufferSize cfg" "config ?s = cfg" by (simp_all add: inv_def)
qed

lemma last_ring_z:
  "0 < rings cfg \<Longrightarrow> position_z (ring_drawable cfg g m (rings cfg)) = length_cfg cfg / 2"
  by (simp add: ring_drawable_def)

subsection \<open>The vertices of the line batch\<close>

lemma concat_rows_length:
  "(\<And>i. i < n \<Longrightarrow> length (f i) = m) \<Longrightarrow> length (concat (map f [0..<n])) = n * m"
  by (induction n) simp_all

lemma concat_rows_nth:
  assumes "\<And>i. i < n \<Longrightarrow> length (f i) = m" and "i < n" and "j < m"
  shows "concat (map f [0..<n]) ! (i * m + j) = f i ! j"
  using assms
proof (induction n)
  case 0
  then show ?case by simp
next
  case (Suc n)
  have len: "length (concat (map f [0..<n])) = n * m"
    using Suc.prems(1) by (intro concat_rows_length) simp
  show ?case
  proof (cases "i < n")
    case True
    then have "i * m + j < n * m"
    proof -
      have "i * m + j < i * m + m" using Suc.prems(3) by simp
      also have "\<dots> = Suc i * m" by simp
      also have "\<dots> \<le> n * m" using True by (intro mult_le_mono1) simp
      finally show ?thesis .
    qed
    then show ?thesis
      using Suc.IH[OF _ True Suc.prems(3)] Suc.prems(1) len by (simp add: nth_append)
  next
    case False
    then have "i = n" using Suc.prems(2) by simp
    then show ?thesis using len Suc.prems(3) by (simp add: nth_append)
  qed
qed

lemma lineVertices_length: "length (lineVertices cfg) = segments cfg * 201"
  unfolding lineVertices_concat
  by (rule concat_rows_length) (simp add: steps_def)

lemma lineVertices_nth:
  assumes "i < segments cfg" and "j \<le> 200"
  shows "lineVertices cfg ! (i * 201 + j) = line_point cfg i j"
proof -
  have "concat (map (\<lambda>i. map (line_point cfg i) [0..<Suc steps]) [0..<segments cfg]) ! (i * 201 + j)
      = map (line_point cfg i) [0..<Suc steps] ! j"
    using assms by (intro concat_rows_nth) (simp_all add: steps_def)
  also have "\<dots> = line_point cfg i j"
    using assms(2) by (simp add: steps_def del: upt_Suc)
  finally show ?thesis unfolding lineVertices_concat .
qed

lemma line_points_sampled:
  assumes "i < segments cfg" and "j \<le> 200"
  shows "length (lineVertices cfg) = segments cfg * 201
    \<and> lineVertices cfg ! (i * 201 + j) =
        (cos ((real i / real (segments cfg)) * pi * 2) * radius cfg,
         sin ((real i / real (segments cfg)) * pi * 2) * radius cfg,
         (real j / 200) * length_cfg cfg - length_cfg cfg / 2)"
  using lineVertices_nth[OF assms] lineVertices_length[of cfg]
  by (simp add: line_point_def steps_def)

subsection \<open>The store during and after a frame step\<close>


lemma update_section_snd:
  "snd (update_section cfg sl sec mats) =
     fold (set_child_opacity cfg (advance cfg sl (position_z sec))) (children sec) mats"
  by (simp add: update_section_def Let_def)







subsection \<open>Queued callbacks\<close>



subsection \<open>What a run keeps of a material\<close>

lemma map_update_same:
  assumes "\<And>x. f (g x) = f x"
  shows "map f (xs[i := g (xs ! i)]) = map f xs"
proof (rule nth_equalityI)
  show "length (map f (xs[i := g (xs ! i)])) = length (map f xs)" by simp
next
  fix n assume "n < length (map f (xs[i := g (xs ! i)]))"
  then have n: "n < length xs" by simp
  show "map f (xs[i := g (xs ! i)]) ! n = map f xs ! n"
  proof (cases "n = i")
    case True
    then show ?thesis using n assms[of "xs ! i"] by simp
  next
    case False
    then show ?thesis using n by simp
  qed
qed

lemma set_child_opacity_keeps:
  "(\<And>m v. f (m\<lparr>opacity := v\<rparr>) = f m) \<Longrightarrow> map f (set_child_opacity cfg z c mats) = map f mats"
  unfolding set_child_opacity_def by (rule map_update_same) simp

lemma fold_set_child_opacity_keeps:
  "(\<And>m v. f (m\<lparr>opacity := v\<rparr>) = f m) \<Longrightarrow>
   map f (fold (set_child_opacity cfg z) cs mats) = map f mats"
  by (induction cs arbitrary: mats) (simp_all add: set_child_opacity_keeps)

lemma update_sections_keeps:
  "(\<And>m v. f (m\<lparr>opacity := v\<rparr>) = f m) \<Longrightarrow>
   map f (snd (update_sections cfg sl secs mats)) = map f mats"
  by (induction secs arbitrary: mats)
     (simp_all add: update_sections_Cons_snd update_section_snd fold_set_child_opacity_keeps
        del: update_sections.simps(2))

lemma animate_keeps:
  "(\<And>m v. f (m\<lparr>opacity := v\<rparr>) = f m) \<Longrightarrow> map f (materials (animate ct now s)) = map f (materials s)"
  by (cases "isAnimating s") (simp_all add: animate_running animate_stopped update_sections_keeps)

lemma fold_dispose_object_keeps:
  "(\<And>m n. f (m\<lparr>material_disposed := n\<rparr>) = f m) \<Longrightarrow>
   map f (snd (fold dispose_object cs st)) = map f (snd st)"
proof (induction cs arbitrary: st)
  case Nil
  then show ?case by simp
next
  case (Cons c cs)
  have "map f (snd (dispose_object c st)) = map f (snd st)"
    unfolding dispose_object_def
    by (cases st) (simp add: map_update_same[where g = "\<lambda>m. m\<lparr>material_disposed := Suc (material_disposed m)\<rparr>"] Cons.prems)
  with Cons.IH[OF Cons.prems, of "dispose_object c st"] show ?case by simp
qed

lemma dispose_section_keeps:
  "(\<And>m n. f (m\<lparr>material_disposed := n\<rparr>) = f m) \<Longrightarrow>
   map f (materials (dispose_section i s)) = map f (materials s)"
  using fold_dispose_object_keeps[of f "children (tunnelSections s ! i)" "(geometries s, materials s)"]
  by (auto simp: dispose_section_def Let_def split: prod.splits)

lemma fold_dispose_section_keeps:
  "(\<And>m n. f (m\<lparr>material_disposed := n\<rparr>) = f m) \<Longrightarrow>
   map f (materials (fold dispose_section is s)) = map f (materials s)"
  by (induction "is" arbitrary: s) (simp_all add: dispose_section_keeps)

lemma exec_keeps:
  assumes "\<And>m v. f (m\<lparr>opacity := v\<rparr>) = f m" and "\<And>m n. f (m\<lparr>material_disposed := n\<rparr>) = f m"
  shows "map f (materials (exec e s)) = map f (materials s)"
proof (cases e)
  case (Start now now')
  then show ?thesis by (simp add: start_def animate_keeps[of f, OF assms(1)])
next
  case (Stop now)
  then show ?thesis by (simp add: stop_def)
next
  case (Frame ct now)
  then show ?thesis by (simp add: animate_keeps[of f, OF assms(1)])
next
  case (Dispose now)
  then show ?thesis
    by (simp add: dispose_def Let_def fold_dispose_section_keeps[of f, OF assms(2)] stop_def)
qed

lemma run_keeps:
  assumes "\<And>m v. f (m\<lparr>opacity := v\<rparr>) = f m" and "\<And>m n. f (m\<lparr>material_disposed := n\<rparr>) = f m"
  shows "map f (materials (run evs s)) = map f (materials s)"
  unfolding run_def
  by (induction evs arbitrary: s) (simp_all add: exec_keeps[of f, OF assms] del: exec.simps)

lemma replicate_two_nth: "i < 2 * n \<Longrightarrow> concat (replicate n [a, a]) ! i = a"
proof -
  assume "i < 2 * n"
  then have "concat (replicate n [a, a]) ! i \<in> set (concat (replicate n [a, a]))"
    by (intro nth_mem) (simp add: replicate_two_length)
  moreover have "set (concat (replicate n [a, a])) \<subseteq> {a}"
    by (induction n) simp_all
  ultimately show ?thesis by blast
qed

lemma constructor_material:
  "m < 2 * bufferSize cfg \<Longrightarrow> materials (constructor cfg) ! m = new_material cfg"
  by (simp add: constructor_eq replicate_two_nth)

lemma reachable_material:
  assumes "m < 2 * bufferSize cfg"
    and "\<And>m v. f (m\<lparr>opacity := v\<rparr>) = f m" and "\<And>m n. f (m\<lparr>material_disposed := n\<rparr>) = f m"
  shows "f (materials (run evs (constructor cfg)) ! m) = f (new_material cfg)"
proof -
  have l: "m < length (materials (run evs (constructor cfg)))" "m < length (materials (constructor cfg))"
    using assms(1) reachable_lengths(2)[of evs cfg] reachable_lengths(2)[of "[]" cfg]
    by (simp_all add: run_def)
  have "f (materials (run evs (constructor cfg)) ! m) = map f (materials (run evs (constructor cfg))) ! m"
    using l by simp
  also have "\<dots> = map f (materials (constructor cfg)) ! m"
    by (simp only: run_keeps[of f, OF assms(2,3)])
  also have "\<dots> = f (new_material cfg)"
    using l constructor_material[OF assms(1)] by simp
  finally show ?thesis .
qed

section \<open>The claims\<close>

subsection \<open>C1: the offset after a frame step\<close>

text \<open>
  C1 says that after the advance and the wraparound every offset lies in the half-open
  interval from \<open>- sectionLength * (bufferCount - 1)\<close> to \<open>sectionLength\<close>, the upper bound
  excluded. Line 157 compares with \<^verbatim>\<open>>\<close>, so an offset that the advance puts exactly on
  \<open>sectionLength\<close> stays there. With the default configuration and a speed of one half,
  section 0 starts at 0 and stands at 25, the section length, after \<^verbatim>\<open>start()\<close> and 49 more
  frames.
\<close>

theorem offset_half_open_counterexample:
  "\<not> position_z (tunnelSections (run (Start 0 0 # replicate 49 (Frame 0 0)) (constructor half_speed_config)) ! 0)
       < length_cfg half_speed_config / real (bufferSize half_speed_config)"
proof -
  let ?s0 = "constructor half_speed_config"
  let ?s1 = "start 0 0 ?s0"
  let ?s2 = "run (replicate 49 (Frame 0 0)) ?s1"
  have c: "config ?s0 = half_speed_config" by (simp add: constructor_eq)
  have n: "\<not> isAnimating ?s0" by (simp add: constructor_eq)
  note s = start_offsets[OF n, of 0 0]
  have sl: "length_cfg half_speed_config / real (bufferSize half_speed_config) = 25"
    by (simp add: half_speed_simps)
  have c1: "config ?s1 = half_speed_config" using s c by simp
  have z1: "map position_z (tunnelSections ?s1) = map (advance half_speed_config 25) [0, 25]"
    using conjunct2[OF conjunct2[OF conjunct2[OF s]]] unfolding c sl half_speed_initial_offsets .
  have "map position_z (tunnelSections ?s2) =
      map (advance half_speed_config 25 ^^ 49) (map position_z (tunnelSections ?s1))"
    using frames_offsets[OF conjunct1[OF s] conjunct1[OF conjunct2[OF s]], of 49 0 0] unfolding c1 sl .
  then have "map position_z (tunnelSections ?s2) ! 0 =
      map (advance half_speed_config 25 ^^ 49) (map (advance half_speed_config 25) [0, 25]) ! 0"
    unfolding z1 by (rule arg_cong)
  moreover have "tunnelSections ?s2 \<noteq> []"
    using \<open>map position_z (tunnelSections ?s2) =
      map (advance half_speed_config 25 ^^ 49) (map position_z (tunnelSections ?s1))\<close>
    unfolding z1 by auto
  ultimately have "position_z (tunnelSections ?s2 ! 0) =
      (advance half_speed_config 25 ^^ 49) (advance half_speed_config 25 0)"
    by (simp add: nth_map del: funpow.simps)
  also have "advance half_speed_config 25 0 = 1 / 2"
    by (simp add: advance_def half_speed_simps)
  also have "(advance half_speed_config 25 ^^ 49) (1 / 2) = 1 / 2 + real 49 * speed half_speed_config"
    by (rule advance_iter) (simp_all add: half_speed_simps)
  also have "\<dots> = 25" by (simp add: half_speed_simps)
  finally have "position_z (tunnelSections ?s2 ! 0) = 25" .
  then show ?thesis unfolding run_Cons exec.simps sl by simp
qed

text \<open>
  C1 as amended: in every run from the constructor with a positive length, at least one
  section and a speed that is not negative, a frame step (a queued callback that finds the
  instance running, or the first step inside \<^verbatim>\<open>start()\<close>) moves each offset by the speed,
  replaces it by \<open>- sectionLength * (bufferCount - 1)\<close> when the sum is greater than
  \<open>sectionLength\<close> and only then, and leaves it in the closed interval between the two.
\<close>

theorem offset_after_frame_step:
  assumes "0 < length_cfg cfg" and "0 < bufferSize cfg" and "0 \<le> speed cfg"
    and "s = run evs (constructor cfg)"
    and "e = Frame ct now \<and> isAnimating s \<and> 0 < pendingFrames s \<or> e = Start now now' \<and> \<not> isAnimating s"
    and "i < bufferSize cfg"
  shows "position_z (tunnelSections (exec e s) ! i) =
           (if length_cfg cfg / real (bufferSize cfg) < position_z (tunnelSections s ! i) + speed cfg
            then - (length_cfg cfg / real (bufferSize cfg)) * (real (bufferSize cfg) - 1)
            else position_z (tunnelSections s ! i) + speed cfg)
         \<and> - (length_cfg cfg / real (bufferSize cfg)) * (real (bufferSize cfg) - 1)
             \<le> position_z (tunnelSections (exec e s) ! i)
         \<and> position_z (tunnelSections (exec e s) ! i) \<le> length_cfg cfg / real (bufferSize cfg)"
proof -
  have inv: "inv cfg s" unfolding assms(4) by (rule inv_reachable)
  then have cfg: "config s = cfg" by (simp add: inv_def)
  from inv have "length (map children (tunnelSections s)) = bufferSize cfg" by (simp add: inv_def)
  then have len: "i < length (tunnelSections s)" using assms(6) by simp
  have "lower_ok s" unfolding assms(4) by (rule lower_ok_reachable[OF assms(1-3)])
  then have lo: "- (length_cfg cfg / real (bufferSize cfg)) * (real (bufferSize cfg) - 1)
      \<le> position_z (tunnelSections s ! i)"
    using len cfg by (simp add: lower_ok_def)
  have sl: "0 \<le> length_cfg cfg / real (bufferSize cfg)" using assms(1) by simp
  from exec_frame_step[OF assms(5)] obtain s1 ct' now'' where
    s1: "exec e s = animate ct' now'' s1" "isAnimating s1"
      "tunnelSections s1 = tunnelSections s" "config s1 = config s" by metis
  have z: "position_z (tunnelSections (exec e s) ! i) =
      advance cfg (length_cfg cfg / real (bufferSize cfg)) (position_z (tunnelSections s ! i))"
    using animate_sections[OF s1(2), of i ct' now''] len s1 cfg by simp
  from advance_bounds[OF sl assms(2,3) lo] show ?thesis
    unfolding z by (simp add: advance_def Let_def)
qed

theorem offset_after_frame_step_witness:
  "0 < length_cfg default_config \<and> 0 < bufferSize default_config \<and> 0 \<le> speed default_config
   \<and> constructor default_config = run [] (constructor default_config)
   \<and> \<not> isAnimating (constructor default_config) \<and> (1::nat) < bufferSize default_config
   \<and> position_z (tunnelSections (exec (Start 0 0) (constructor default_config)) ! 1) = - 25
   \<and> position_z (tunnelSections (constructor default_config) ! 1) = 25"
proof -
  have h: "0 < length_cfg default_config" "0 < bufferSize default_config" "0 \<le> speed default_config"
    "(1::nat) < bufferSize default_config"
    by (simp_all add: default_config_def)
  have r: "constructor default_config = run [] (constructor default_config)" by (simp add: run_def)
  have n: "\<not> isAnimating (constructor default_config)" by (simp add: constructor_eq)
  have z: "position_z (tunnelSections (constructor default_config) ! 1) = 25"
    using h(4) by (simp add: constructor_eq built_section_def) (simp add: default_config_def)
  have e: "Start 0 0 = Frame 0 0 \<and> isAnimating (constructor default_config) \<and> 0 < pendingFrames (constructor default_config)
     \<or> Start 0 0 = Start 0 0 \<and> \<not> isAnimating (constructor default_config)"
    using n by simp
  from offset_after_frame_step[OF h(1-3) r e h(4)]
  have "position_z (tunnelSections (exec (Start 0 0) (constructor default_config)) ! 1) = - 25"
    unfolding z by (simp add: default_config_def)
  with h r n z show ?thesis by simp
qed

subsection \<open>C2: the opacity of a child\<close>



subsection \<open>C3: the two states of the loop\<close>




subsection \<open>C4: the materials of a section\<close>

text \<open>
  C4 says that all drawables of a section, the rings and the line batch, refer to one
  material. Lines 97 and 130 create two materials, one for the rings and one for the line
  batch: in section 0 of a new instance with the default configuration, ring 0 refers to
  the first and the line batch to the second.
\<close>

theorem single_material_counterexample:
  "\<not> single_material (children (tunnelSections (constructor default_config) ! 0))"
proof
  assume a: "single_material (children (tunnelSections (constructor default_config) ! 0))"
  have b: "(0::nat) < bufferSize default_config" by (simp add: default_simps)
  have c: "children (tunnelSections (constructor default_config) ! 0) = section_children default_config 0 0"
    using reachable_children[OF b, of "[]"] by (simp add: run_def)
  have "new_Line 0 0\<lparr>position_z := - 25\<rparr> \<in> set (section_children default_config 0 0)"
    by (simp add: section_children_def ring_drawable_def new_Line_def default_simps image_iff del: upt_Suc)
  moreover have "new_LineSegments 1 1 \<in> set (section_children default_config 0 0)"
    by (simp add: section_children_def)
  ultimately have "material (new_Line 0 0\<lparr>position_z := - 25\<rparr>) = material (new_LineSegments 1 1)"
    using a unfolding c single_material_def by blast
  then show False by (simp add: new_Line_def new_LineSegments_def)
qed

text \<open>
  C4 as amended: in every state of every run from the constructor, each section has
  \<open>rings + 2\<close> children; the first \<open>rings + 1\<close> are rings that all refer to one material,
  and the last is the line batch, which refers to another material. Both references point
  into the store of materials. The constructor leaves two objects there that were created
  with the same parameters, and in every state of the run both have the colour and the
  line width of the configuration and are transparent.
\<close>

theorem ring_material_shared:
  assumes "s = run evs (constructor cfg)" and "k < bufferSize cfg"
    and "i \<le> rings cfg" and "j \<le> rings cfg"
    and "ring = children (tunnelSections s ! k) ! i"
    and "lines = children (tunnelSections s ! k) ! (rings cfg + 1)"
  shows "length (children (tunnelSections s ! k)) = rings cfg + 2
    \<and> kind ring = Line
    \<and> material ring = material (children (tunnelSections s ! k) ! j)
    \<and> kind lines = LineSegments
    \<and> material lines \<noteq> material ring
    \<and> material ring < length (materials s) \<and> material lines < length (materials s)
    \<and> materials (constructor cfg) ! material ring = new_material cfg
    \<and> materials (constructor cfg) ! material lines = new_material cfg
    \<and> material_color (materials s ! material ring) = color cfg
    \<and> material_color (materials s ! material lines) = color cfg
    \<and> transparent (materials s ! material ring) \<and> transparent (materials s ! material lines)
    \<and> linewidth (materials s ! material ring) = lineWidth cfg
    \<and> linewidth (materials s ! material lines) = lineWidth cfg"
proof -
  have c: "children (tunnelSections s ! k) = section_children cfg (2 * k) (2 * k)"
    unfolding assms(1) by (rule reachable_children[OF assms(2)])
  have ri: "ring = ring_drawable cfg (2 * k) (2 * k) i"
    unfolding assms(5) c by (rule section_children_ring[OF assms(3)])
  have rj: "children (tunnelSections s ! k) ! j = ring_drawable cfg (2 * k) (2 * k) j"
    unfolding c by (rule section_children_ring[OF assms(4)])
  have li: "lines = new_LineSegments (Suc (2 * k)) (Suc (2 * k))"
    unfolding assms(6) c using section_children_lines[of cfg "2 * k" "2 * k"] by simp
  have mr: "material ring = 2 * k" unfolding ri by (simp add: ring_drawable_def)
  have ml: "material lines = Suc (2 * k)" unfolding li by (simp add: new_LineSegments_def)
  have b: "2 * k < 2 * bufferSize cfg" "Suc (2 * k) < 2 * bufferSize cfg"
    using assms(2) by simp_all
  have len: "length (materials s) = 2 * bufferSize cfg"
    unfolding assms(1) by (rule reachable_lengths(2))
  note R = reachable_material[where evs = evs and cfg = cfg, folded assms(1)]
  have col: "material_color (materials s ! (2 * k)) = color cfg"
    "material_color (materials s ! Suc (2 * k)) = color cfg"
    using R[OF b(1), of material_color] R[OF b(2), of material_color] by (simp_all add: new_material_def)
  have tr: "transparent (materials s ! (2 * k))" "transparent (materials s ! Suc (2 * k))"
    using R[OF b(1), of transparent] R[OF b(2), of transparent] by (simp_all add: new_material_def)
  have lw: "linewidth (materials s ! (2 * k)) = lineWidth cfg"
    "linewidth (materials s ! Suc (2 * k)) = lineWidth cfg"
    using R[OF b(1), of linewidth] R[OF b(2), of linewidth] by (simp_all add: new_material_def)
  show ?thesis
    unfolding mr ml rj
    using col tr lw b len constructor_material[OF b(1)] constructor_material[OF b(2)]
    by (simp add: c ri li ring_drawable_def new_LineSegments_def)
qed

theorem ring_material_shared_witness:
  "constructor default_config = run [] (constructor default_config)
   \<and> (0::nat) < bufferSize default_config \<and> (0::nat) \<le> rings default_config
   \<and> (60::nat) \<le> rings default_config
   \<and> material (children (tunnelSections (constructor default_config) ! 0) ! 0)
       = material (children (tunnelSections (constructor default_config) ! 0) ! 60)
   \<and> material (children (tunnelSections (constructor default_config) ! 0) ! 61)
       \<noteq> material (children (tunnelSections (constructor default_config) ! 0) ! 0)
   \<and> materials (constructor default_config)
        ! material (children (tunnelSections (constructor default_config) ! 0) ! 0)
       = new_material default_config
   \<and> materials (constructor default_config)
        ! material (children (tunnelSections (constructor default_config) ! 0) ! 61)
       = new_material default_config"
proof -
  let ?cs = "children (tunnelSections (constructor default_config) ! 0)"
  have h: "constructor default_config = run [] (constructor default_config)"
    "(0::nat) < bufferSize default_config" "(0::nat) \<le> rings default_config"
    "(60::nat) \<le> rings default_config"
    by (simp_all add: default_simps run_def)
  have r: "rings default_config + 1 = 61" by (simp add: default_simps)
  note R = ring_material_shared[OF h refl refl, unfolded r]
  have a: "material (?cs ! 0) = material (?cs ! 60)"
    using R by (elim conjE) assumption
  have b: "material (?cs ! 61) \<noteq> material (?cs ! 0)"
    using R by (elim conjE) assumption
  have c: "materials (constructor default_config) ! material (?cs ! 0) = new_material default_config"
    using R by (elim conjE) assumption
  have d: "materials (constructor default_config) ! material (?cs ! 61) = new_material default_config"
    using R by (elim conjE) assumption
  from h a b c d show ?thesis by (intro conjI)
qed

subsection \<open>C5: the opacity left in a shared material\<close>

text \<open>
  C5: after a frame step, the material of every child of a section holds the opacity
  computed for the last child of that section that refers to the same material, at the
  section's new offset; for every ring this is the value of the ring at local z equal to
  half the length, the last ring of the loop. The configuration has at least one ring step
  and a positive length.
\<close>

theorem shared_material_takes_last_opacity:
  assumes "0 < rings cfg"
    and "s = run evs (constructor cfg)"
    and "e = Frame ct now \<and> isAnimating s \<and> 0 < pendingFrames s \<or> e = Start now now' \<and> \<not> isAnimating s"
    and "k < bufferSize cfg" and "i < rings cfg + 2" and "j \<le> rings cfg"
    and "0 < length_cfg cfg"
  shows "opacity (materials (exec e s) ! material (children (tunnelSections (exec e s) ! k) ! i))
           = child_opacity cfg
               (position_z (last (filter (\<lambda>d. material d = material (children (tunnelSections (exec e s) ! k) ! i))
                                     (children (tunnelSections (exec e s) ! k)))))
               (position_z (tunnelSections (exec e s) ! k))
    \<and> opacity (materials (exec e s) ! material (children (tunnelSections (exec e s) ! k) ! j))
           = child_opacity cfg (length_cfg cfg / 2) (position_z (tunnelSections (exec e s) ! k))"
proof -
  let ?sl = "length_cfg cfg / real (bufferSize cfg)"
  let ?cs = "section_children cfg (2 * k) (2 * k)"
  note len = reachable_lengths[of evs cfg, folded assms(2)]
  have ch: "children (tunnelSections s ! k) = ?cs"
    unfolding assms(2) by (rule reachable_children[OF assms(4)])
  have all_ch: "\<And>j. j < bufferSize cfg \<Longrightarrow> children (tunnelSections s ! j) = section_children cfg (2 * j) (2 * j)"
    unfolding assms(2) by (rule reachable_children)
  from exec_frame_step[OF assms(3)] obtain s1 ct' now'' where
    s1: "exec e s = animate ct' now'' s1" "isAnimating s1"
      "tunnelSections s1 = tunnelSections s" "config s1 = config s" "materials s1 = materials s"
    by metis
  have k: "k < length (tunnelSections s)" using assms(4) len(1) by simp
  have "map children (tunnelSections (exec e s)) ! k = map children (tunnelSections s) ! k"
    unfolding s1(1) animate_children s1(3) ..
  moreover have "k < length (tunnelSections (exec e s))" using k by (simp add: s1)
  ultimately have ch': "children (tunnelSections (exec e s) ! k) = ?cs"
    using k ch by (simp add: nth_map)
  have z': "position_z (tunnelSections (exec e s) ! k) = advance cfg ?sl (position_z (tunnelSections s ! k))"
    unfolding s1(1) using animate_sections[OF s1(2), of k ct' now''] k by (simp add: s1 len(3))
  have mats': "materials (exec e s) = snd (update_sections cfg ?sl (tunnelSections s) (materials s))"
    unfolding s1(1) animate_materials[OF s1(2)] by (simp add: s1 len(3))
  have pass: "opacity (materials (exec e s) ! material c)
         = child_opacity cfg (position_z (last (filter (\<lambda>d. material d = material c) ?cs)))
             (position_z (tunnelSections (exec e s) ! k))"
    if c: "c \<in> set ?cs" for c
  proof -
    from c have "material c \<in> {2 * k, Suc (2 * k)}"
      using section_children_materials[of cfg "2 * k" "2 * k"] by blast
    then have m: "material c = 2 * k \<or> material c = Suc (2 * k)" by simp
    then have lt: "material c < length (materials s)" using assms(4) len(2) by auto
    have disj: "\<forall>j < length (tunnelSections s). j \<noteq> k \<longrightarrow>
        material c \<notin> material ` set (children (tunnelSections s ! j))"
    proof (intro allI impI)
      fix j assume j: "j < length (tunnelSections s)" "j \<noteq> k"
      then have "children (tunnelSections s ! j) = section_children cfg (2 * j) (2 * j)"
        using all_ch len(1) by simp
      then have "material ` set (children (tunnelSections s ! j)) = {2 * j, Suc (2 * j)}"
        by (simp add: section_children_materials)
      with m j(2) show "material c \<notin> material ` set (children (tunnelSections s ! j))"
        by auto
    qed
    have c': "c \<in> set (children (tunnelSections s ! k))" using c ch by simp
    from update_sections_opacity[OF k c' lt disj, of cfg ?sl] show ?thesis
      unfolding mats' z' ch .
  qed
  have i: "?cs ! i \<in> set ?cs" using assms(5) by (intro nth_mem) simp
  have j: "?cs ! j \<in> set ?cs" using assms(6) by (intro nth_mem) simp
  have mj: "material (?cs ! j) = 2 * k"
    by (simp add: section_children_ring[OF assms(6)] ring_drawable_def)
  have "opacity (materials (exec e s) ! material (?cs ! j))
        = child_opacity cfg (length_cfg cfg / 2) (position_z (tunnelSections (exec e s) ! k))"
    unfolding pass[OF j] unfolding mj section_children_last_ring last_ring_z[OF assms(1)] ..
  with pass[OF i] show ?thesis unfolding ch' by (intro conjI)
qed

theorem shared_material_takes_last_opacity_witness:
  "0 < rings default_config
   \<and> constructor default_config = run [] (constructor default_config)
   \<and> \<not> isAnimating (constructor default_config)
   \<and> (0::nat) < bufferSize default_config \<and> (61::nat) < rings default_config + 2
   \<and> (0::nat) \<le> rings default_config \<and> 0 < length_cfg default_config
   \<and> opacity (materials (exec (Start 0 0) (constructor default_config))
         ! material (children (tunnelSections (exec (Start 0 0) (constructor default_config)) ! 0) ! 0))
       = child_opacity default_config 25 (3 / 100)"
proof -
  let ?s = "constructor default_config"
  have h: "0 < rings default_config" "?s = run [] ?s"
    "(0::nat) < bufferSize default_config" "(61::nat) < rings default_config + 2"
    "(0::nat) \<le> rings default_config" "0 < length_cfg default_config"
    by (simp_all add: default_simps run_def)
  have n: "\<not> isAnimating ?s" by (simp add: constructor_eq)
  have e: "Start 0 0 = Frame 0 0 \<and> isAnimating ?s \<and> 0 < pendingFrames ?s
      \<or> Start 0 0 = Start 0 0 \<and> \<not> isAnimating ?s"
    using n by simp
  note T = shared_material_takes_last_opacity[OF h(1,2) e h(3,4,5,6)]
  have z: "position_z (tunnelSections (exec (Start 0 0) ?s) ! 0) = 3 / 100"
  proof -
    have "map position_z (tunnelSections (start 0 0 ?s)) ! 0
        = map (advance default_config 25) (map position_z (tunnelSections ?s)) ! 0"
      using start_offsets[OF n, of 0 0] by (simp add: constructor_eq default_simps)
    moreover have "length (tunnelSections (start 0 0 ?s)) = 2" "length (tunnelSections ?s) = 2"
      using reachable_lengths(1)[of "[Start 0 0]" default_config] reachable_lengths(1)[of "[]" default_config]
      by (simp_all add: run_def default_simps)
    ultimately have "position_z (tunnelSections (start 0 0 ?s) ! 0)
        = advance default_config 25 (position_z (tunnelSections ?s ! 0))"
      by (simp add: nth_map)
    also have "position_z (tunnelSections ?s ! 0) = 0"
      using h(3) by (simp add: constructor_eq built_section_def)
    finally show ?thesis by (simp add: advance_def default_simps)
  qed
  have "opacity (materials (exec (Start 0 0) ?s) ! material (children (tunnelSections (exec (Start 0 0) ?s) ! 0) ! 0))
       = child_opacity default_config (length_cfg default_config / 2) (position_z (tunnelSections (exec (Start 0 0) ?s) ! 0))"
    using T by (elim conjE) assumption
  then have "opacity (materials (exec (Start 0 0) ?s) ! material (children (tunnelSections (exec (Start 0 0) ?s) ! 0) ! 0))
       = child_opacity default_config 25 (3 / 100)"
    unfolding z default_simps by simp
  with h n show ?thesis by (intro conjI)
qed

subsection \<open>C6: the resize listener after \<^verbatim>\<open>dispose\<close>\<close>

text \<open>
  C6 says that \<^verbatim>\<open>dispose()\<close> detaches the resize listener. Line 199 passes
  \<^verbatim>\<open>this.handleResize\<close> to \<^verbatim>\<open>removeEventListener\<close>, but line 70 registered an arrow
  function, another object, so nothing is removed: the listener that the constructor
  registered is still registered after \<^verbatim>\<open>dispose()\<close>.
\<close>

theorem dispose_keeps_resize_listener:
  "windowListeners (constructor cfg) = [(''resize'', DebounceArrow)]
   \<and> windowListeners (dispose now (constructor cfg)) = [(''resize'', DebounceArrow)]
   \<and> \<not> isAnimating (dispose now (constructor cfg))"
  using inv_dispose[OF inv_constructor, of cfg now] inv_constructor[of cfg]
  by (simp add: inv_def dispose_flags)

subsection \<open>C7: the vertex pairs of the line batch\<close>

text \<open>
  C7 says that each vertex pair \<open>(2k, 2k + 1)\<close> of the line batch joins two points of one
  angle. The buffer holds 201 points per angle (lemma \<open>line_points_sampled\<close>), an odd
  number, so pair 100 of the default configuration joins vertex 200, the last point of
  angle 0, to vertex 201, the first point of angle \<open>2 * pi / 72\<close>: the two differ in the
  y coordinate, which is 0 for the first and positive for the second.
\<close>

theorem line_pair_crosses_angles:
  "lineVertices default_config ! (2 * 100) = (10, 0, 25)
   \<and> lineVertices default_config ! (2 * 100 + 1) = (cos (pi / 36) * 10, sin (pi / 36) * 10, - 25)
   \<and> 0 < sin (pi / 36) * (10::real)"
proof -
  have a: "lineVertices default_config ! (0 * 201 + 200) = line_point default_config 0 200"
    by (rule lineVertices_nth) (simp_all add: default_simps)
  have b: "lineVertices default_config ! (1 * 201 + 0) = line_point default_config 1 0"
    by (rule lineVertices_nth) (simp_all add: default_simps)
  have pa: "line_point default_config 0 200 = (10, 0, 25)"
    by (simp add: line_point_def default_simps steps_def)
  have "real 1 / real 72 * pi * 2 = pi / 36" by simp
  then have pb: "line_point default_config 1 0 = (cos (pi / 36) * 10, sin (pi / 36) * 10, - 25)"
    by (simp add: line_point_def default_simps steps_def)
  have "0 < pi / 36" "pi / 36 < pi" by simp_all
  then have "0 < sin (pi / 36)" by (rule sin_gt_zero)
  then have s: "0 < sin (pi / 36) * (10::real)" by simp
  from a b pa pb s show ?thesis by simp
qed

subsection \<open>C8: number and position of the rings\<close>

text \<open>
  C8: with at least one ring step and a positive length, every section of every state of a
  run has exactly \<open>rings + 1\<close> ring drawables, ring \<open>i\<close> sits at
  \<open>(i / rings) * length - length / 2\<close>, and this position lies between minus and plus half
  the length.
\<close>

theorem ring_count_and_positions:
  assumes "0 < rings cfg" and "0 < length_cfg cfg"
    and "s = run evs (constructor cfg)" and "k < bufferSize cfg" and "i \<le> rings cfg"
  shows "length (filter (\<lambda>c. kind c = Line) (children (tunnelSections s ! k))) = rings cfg + 1
    \<and> kind (children (tunnelSections s ! k) ! i) = Line
    \<and> position_z (children (tunnelSections s ! k) ! i)
        = (real i / real (rings cfg)) * length_cfg cfg - length_cfg cfg / 2
    \<and> - (length_cfg cfg / 2) \<le> position_z (children (tunnelSections s ! k) ! i)
    \<and> position_z (children (tunnelSections s ! k) ! i) \<le> length_cfg cfg / 2"
proof -
  have c: "children (tunnelSections s ! k) = section_children cfg (2 * k) (2 * k)"
    unfolding assms(3) by (rule reachable_children[OF assms(4)])
  have r: "section_children cfg (2 * k) (2 * k) ! i = ring_drawable cfg (2 * k) (2 * k) i"
    by (rule section_children_ring[OF assms(5)])
  have z: "position_z (ring_drawable cfg (2 * k) (2 * k) i)
      = (real i / real (rings cfg)) * length_cfg cfg - length_cfg cfg / 2"
    "kind (ring_drawable cfg (2 * k) (2 * k) i) = Line"
    by (simp_all add: ring_drawable_def)
  show ?thesis
    unfolding c r z section_children_rings
    using ring_z_bounds[OF assms(1,2,5)] by simp
qed

theorem ring_count_and_positions_witness:
  "0 < rings default_config \<and> 0 < length_cfg default_config
   \<and> constructor default_config = run [] (constructor default_config)
   \<and> (1::nat) < bufferSize default_config \<and> (15::nat) \<le> rings default_config
   \<and> length (filter (\<lambda>c. kind c = Line) (children (tunnelSections (constructor default_config) ! 1))) = 61
   \<and> position_z (children (tunnelSections (constructor default_config) ! 1) ! 15) = - 25 / 2"
proof -
  have h: "0 < rings default_config" "0 < length_cfg default_config"
    "constructor default_config = run [] (constructor default_config)"
    "(1::nat) < bufferSize default_config" "(15::nat) \<le> rings default_config"
    by (simp_all add: default_simps run_def)
  note R = ring_count_and_positions[OF h]
  have "length (filter (\<lambda>c. kind c = Line) (children (tunnelSections (constructor default_config) ! 1)))
      = rings default_config + 1"
    using R by (elim conjE) assumption
  then have a: "length (filter (\<lambda>c. kind c = Line) (children (tunnelSections (constructor default_config) ! 1))) = 61"
    unfolding default_simps by simp
  have "position_z (children (tunnelSections (constructor default_config) ! 1) ! 15)
        = (real 15 / real (rings default_config)) * length_cfg default_config - length_cfg default_config / 2"
    using R by (elim conjE) assumption
  then have b: "position_z (children (tunnelSections (constructor default_config) ! 1) ! 15) = - 25 / 2"
    unfolding default_simps by simp
  from h a b show ?thesis by (intro conjI)
qed

subsection \<open>C9: a frame step does not depend on the elapsed time\<close>

text \<open>
  C9: two frame steps from the same state that differ only in the time read by the clock
  (and in the timestamp passed to the callback) leave the same sections, hence the same
  offsets, and the same materials, hence the same opacities; this holds for the body
  \<^verbatim>\<open>animate\<close>, for a queued callback and for the first step inside \<^verbatim>\<open>start()\<close>. A section
  that the step does not wrap advances by exactly \<open>speed\<close>.
\<close>

theorem frame_step_ignores_delta:
  "tunnelSections (animate ct now s) = tunnelSections (animate ct' now' s)
   \<and> materials (animate ct now s) = materials (animate ct' now' s)
   \<and> tunnelSections (exec (Frame ct now) s) = tunnelSections (exec (Frame ct' now') s)
   \<and> materials (exec (Frame ct now) s) = materials (exec (Frame ct' now') s)
   \<and> tunnelSections (start t now s) = tunnelSections (start t' now' s)
   \<and> materials (start t now s) = materials (start t' now' s)
   \<and> (isAnimating s \<and> i < length (tunnelSections s) \<and> 0 < bufferSize (config s)
        \<and> position_z (tunnelSections s ! i) + speed (config s)
             \<le> length_cfg (config s) / real (bufferSize (config s))
      \<longrightarrow> position_z (tunnelSections (animate ct now s) ! i)
            = position_z (tunnelSections s ! i) + speed (config s))"
proof -
  have "position_z (tunnelSections (animate ct now s) ! i) = position_z (tunnelSections s ! i) + speed (config s)"
    if "isAnimating s" "i < length (tunnelSections s)"
      "position_z (tunnelSections s ! i) + speed (config s) \<le> length_cfg (config s) / real (bufferSize (config s))"
    using that by (simp add: animate_sections advance_def Let_def)
  then show ?thesis
    using animate_delta_independent[of ct now s ct' now'] frame_delta_independent[of ct now s ct' now']
      start_delta_independent[of t now s t' now']
    by (simp del: exec.simps)
qed

theorem frame_step_ignores_delta_witness:
  "isAnimating (start 0 0 (constructor default_config))
   \<and> 0 < length (tunnelSections (start 0 0 (constructor default_config)))
   \<and> 0 < bufferSize (config (start 0 0 (constructor default_config)))
   \<and> tunnelSections (animate 16 16 (start 0 0 (constructor default_config)))
       = tunnelSections (animate 1000 1000 (start 0 0 (constructor default_config)))
   \<and> materials (animate 16 16 (start 0 0 (constructor default_config)))
       = materials (animate 1000 1000 (start 0 0 (constructor default_config)))
   \<and> position_z (tunnelSections (animate 16 16 (start 0 0 (constructor default_config))) ! 0) = 6 / 100"
proof -
  let ?s = "constructor default_config"
  let ?r = "start 0 0 ?s"
  have s: "\<not> isAnimating ?s" by (simp add: constructor_eq)
  note o = start_offsets[OF s, of 0 0]
  have r: "isAnimating ?r" using o by blast
  have c: "config ?r = default_config" using o by (simp add: constructor_eq)
  have b: "0 < bufferSize (config ?r)" unfolding c by (simp add: default_simps)
  have "[0..<2] = [0, Suc 0]" by (simp add: upt_rec)
  then have "map position_z (tunnelSections ?s) = [0, 25]"
    by (simp add: constructor_eq built_section_def default_config_def)
  then have z: "map position_z (tunnelSections ?r) = map (advance default_config 25) [0, 25]"
    using o by (simp add: constructor_eq) (simp add: default_config_def)
  then have l: "0 < length (tunnelSections ?r)" by auto
  have "map position_z (tunnelSections ?r) ! 0 = 3 / 100"
    unfolding z by (simp add: advance_def default_config_def)
  then have z0: "position_z (tunnelSections ?r ! 0) = 3 / 100" using l by (simp add: nth_map)
  have le: "position_z (tunnelSections ?r ! 0) + speed (config ?r)
           \<le> length_cfg (config ?r) / real (bufferSize (config ?r))"
    unfolding z0 c by (simp add: default_config_def)
  note F = frame_step_ignores_delta[where s = ?r and ct = 16 and now = 16 and ct' = 1000 and now' = 1000
      and t = 0 and t' = 0 and i = 0]
  have f1: "tunnelSections (animate 16 16 ?r) = tunnelSections (animate 1000 1000 ?r)"
    using F by (elim conjE) assumption
  have f2: "materials (animate 16 16 ?r) = materials (animate 1000 1000 ?r)"
    using F by (elim conjE) assumption
  have "isAnimating ?r \<and> 0 < length (tunnelSections ?r) \<and> 0 < bufferSize (config ?r)
        \<and> position_z (tunnelSections ?r ! 0) + speed (config ?r)
             \<le> length_cfg (config ?r) / real (bufferSize (config ?r))
      \<longrightarrow> position_z (tunnelSections (animate 16 16 ?r) ! 0)
            = position_z (tunnelSections ?r ! 0) + speed (config ?r)"
    using F by (elim conjE) assumption
  with r l b le have "position_z (tunnelSections (animate 16 16 ?r) ! 0)
            = position_z (tunnelSections ?r ! 0) + speed (config ?r)" by blast
  then have f3: "position_z (tunnelSections (animate 16 16 ?r) ! 0) = 6 / 100"
    unfolding z0 c by (simp add: default_config_def)
  from r l b f1 f2 f3 show ?thesis by (intro conjI)
qed

subsection \<open>C10: \<^verbatim>\<open>stop\<close> after \<^verbatim>\<open>dispose\<close>\<close>

text \<open>
  C10: \<^verbatim>\<open>stop()\<close> after \<^verbatim>\<open>dispose()\<close> changes nothing. \<^verbatim>\<open>dispose()\<close> has already cleared
  the flag and stopped the clock, and a stopped clock whose \<open>autoStart\<close> is cleared takes
  no reading; the stores of geometries and materials are not touched. \<^verbatim>\<open>stop()\<close> has no
  failing branch: it assigns a field and calls a method of the clock, which \<^verbatim>\<open>dispose()\<close>
  leaves in place.
\<close>

theorem stop_after_dispose_is_noop: "stop now' (dispose now s) = dispose now s"
  by (simp add: stop_def[of now' "dispose now s"] dispose_flags clock_stop_twice)

end
